theory Spec2Isabelle
  imports Complex_Main "HOL-Library.AList"
begin

section \<open>Attribute dictionaries and errors\<close>

text \<open>
  Nodify.py works on fiona records: Python dictionaries with the keys \<open>id\<close>,
  \<open>geometry\<close> and \<open>properties\<close>, the last one a dictionary from field names to
  values. A dictionary is an association list here (Python dictionaries keep insertion
  order): \<open>d[k]\<close> is \<open>getitem\<close>, which raises \<open>KeyError\<close> on a missing key, and
  \<open>d[k] = v\<close> is \<open>AList.update\<close>, which overwrites in place or appends.
  Attribute values are strings, integers or null (floating-point attributes are left
  out); \<open>==\<close> on them is structural equality.
\<close>

datatype pyval = PStr string | PInt int | PNone

datatype error = KeyError string | IndexError | AttributeError

type_synonym props = "(string \<times> pyval) list"

definition getitem :: "props \<Rightarrow> string \<Rightarrow> error + pyval" where
  "getitem d k = (case map_of d k of None \<Rightarrow> Inl (KeyError k) | Some v \<Rightarrow> Inr v)"

definition ebind :: "error + 'a \<Rightarrow> ('a \<Rightarrow> error + 'b) \<Rightarrow> error + 'b" where
  "ebind m f = (case m of Inl e \<Rightarrow> Inl e | Inr v \<Rightarrow> f v)"

section \<open>LineTools.add_nodes\<close>

text \<open>
  The input records of \<open>add_nodes\<close>: \<open>lgeometry\<close> is \<open>shape(rec['geometry'])\<close>, with
  \<open>None\<close> for the case the code tests with \<open>geom is None\<close>. The shapely operations
  \<open>geom.length\<close> and \<open>geom.interpolate(d)\<close> belong to a library, so they are the
  parameters \<open>glength\<close> and \<open>interpolate\<close>. The interval is an integer (the docstring's
  type, and the default 1000), so \<open>d\<close> is an unbounded Python integer, compared exactly
  with the length.
\<close>

record 'l line_rec =
  lgeometry :: "'l option"
  lproperties :: props

text \<open>
  Lines 83 to 85, \<open>while d < geom.length: f_output.write(...); d += interval\<close>.
  The loop need not terminate, so it is a partial function: \<open>None\<close> is a run that
  never returns. \<open>f_output\<close> is the sequence of features written so far, each the
  pair of its geometry and its properties.
\<close>

partial_function (option) write_nodes ::
  "('l \<Rightarrow> real) \<Rightarrow> ('l \<Rightarrow> real \<Rightarrow> 'p) \<Rightarrow> int \<Rightarrow> 'l \<Rightarrow> props \<Rightarrow> int \<Rightarrow>
     ('p \<times> props) list \<Rightarrow> ('p \<times> props) list option" where
  "write_nodes glength interpolate interval geom r d f_output =
     (if real_of_int d < glength geom
      then write_nodes glength interpolate interval geom r (d + interval)
             (f_output @ [(interpolate geom (real_of_int d), r)])
      else Some f_output)"

text \<open>Lines 79 to 81: the copied properties with the two flags set.\<close>

definition node_props :: "props \<Rightarrow> props" where
  "node_props p = AList.update ''PROCESSED'' (PStr ''N'') (AList.update ''INCLUDE'' (PStr ''Y'') p)"

text \<open>Lines 73 to 85: the loop over the input records.\<close>

fun add_recs ::
  "('l \<Rightarrow> real) \<Rightarrow> ('l \<Rightarrow> real \<Rightarrow> 'p) \<Rightarrow> int \<Rightarrow> 'l line_rec list \<Rightarrow>
     ('p \<times> props) list \<Rightarrow> ('p \<times> props) list option" where
  "add_recs glength interpolate interval [] f_output = Some f_output"
| "add_recs glength interpolate interval (rec # rest) f_output =
     (case lgeometry rec of
        None \<Rightarrow> add_recs glength interpolate interval rest f_output
      | Some geom \<Rightarrow>
          (case write_nodes glength interpolate interval geom (node_props (lproperties rec)) 0 f_output of
             None \<Rightarrow> None
           | Some f_output' \<Rightarrow> add_recs glength interpolate interval rest f_output'))"

definition add_nodes ::
  "('l \<Rightarrow> real) \<Rightarrow> ('l \<Rightarrow> real \<Rightarrow> 'p) \<Rightarrow> 'l line_rec list \<Rightarrow> int \<Rightarrow> ('p \<times> props) list option" where
  "add_nodes glength interpolate input_file interval =
     add_recs glength interpolate interval input_file []"

text \<open>
  A line to run the model on: the segment from 0 to \<open>L\<close> of the number line, given by
  its length, where the point at arc length \<open>d\<close> is \<open>d\<close> itself.
\<close>

definition seg_length :: "real \<Rightarrow> real" where
  "seg_length L = L"

definition seg_interpolate :: "real \<Rightarrow> real \<Rightarrow> real" where
  "seg_interpolate L d = d"

text \<open>The distances \<open>0, I, 2I, ...\<close> below the length \<open>L\<close>.\<close>

definition sample_distances :: "int \<Rightarrow> real \<Rightarrow> int list" where
  "sample_distances interval L = map (\<lambda>k. int k * interval) [0..<nat \<lceil>L / real_of_int interval\<rceil>]"

section \<open>LineTools.thin_nodes\<close>

text \<open>
  A record of the point file: \<open>fid\<close> is \<open>int(rec['id'])\<close> (fiona numbers the records of
  a shapefile from 0 in file order), \<open>geometry\<close> is \<open>shape(rec['geometry'])\<close>, with
  \<open>None\<close> for the case the code tests with \<open>geom is None\<close>, and \<open>properties\<close> is the
  attribute dictionary, which holds the two flags \<open>INCLUDE\<close> and \<open>PROCESSED\<close>.
\<close>

record 'g feature =
  fid :: nat
  geometry :: "'g option"
  properties :: props

text \<open>
  The shapely and fiona operations that \<open>thin_nodes\<close> calls are parameters:
  \<open>buffer g r\<close> is \<open>g.buffer(r, 100)\<close>, \<open>is_within g b\<close> is \<open>g.within(b)\<close>, and
  \<open>in_bounds g b\<close> says that \<open>f_input.filter(b.bounds)\<close> yields a record with
  geometry \<open>g\<close>.
\<close>

record ('g, 'b) shapely =
  buffer :: "'g \<Rightarrow> real \<Rightarrow> 'b"
  is_within :: "'g \<Rightarrow> 'b \<Rightarrow> bool"
  in_bounds :: "'g \<Rightarrow> 'b \<Rightarrow> bool"

text \<open>A Python \<open>for\<close> loop whose body may raise: the first error ends the loop.\<close>

fun foreach :: "('s \<Rightarrow> 'a \<Rightarrow> error + 's) \<Rightarrow> 's \<Rightarrow> 'a list \<Rightarrow> error + 's" where
  "foreach body s [] = Inr s"
| "foreach body s (a # as) =
     (case body s a of Inl e \<Rightarrow> Inl e | Inr s' \<Rightarrow> foreach body s' as)"

text \<open>
  Lines 158 to 176, \<open>records_within\<close>: the ids of the records of the input file that the
  bounding-box filter yields, in file order. A record without geometry is never
  yielded.
\<close>

definition records_within :: "('g, 'b) shapely \<Rightarrow> 'g feature list \<Rightarrow> 'b \<Rightarrow> nat list" where
  "records_within G input_file obj =
     map fid (filter (\<lambda>rec. case geometry rec of None \<Rightarrow> False | Some g \<Rightarrow> in_bounds G g obj)
                input_file)"

text \<open>Lines 140 and 141 (and 129 and 130): the two flag assignments that exclude a record.\<close>

definition exclude :: "'g feature \<Rightarrow> 'g feature" where
  "exclude r = r\<lparr>properties :=
     AList.update ''PROCESSED'' (PStr ''Y'') (AList.update ''INCLUDE'' (PStr ''N'') (properties r))\<rparr>"

text \<open>Lines 143 and 144: the two flag assignments at the end of the active record's turn.\<close>

definition reaffirm :: "'g feature \<Rightarrow> 'g feature" where
  "reaffirm r = r\<lparr>properties :=
     AList.update ''PROCESSED'' (PStr ''N'') (AList.update ''INCLUDE'' (PStr ''Y'') (properties r))\<rparr>"

text \<open>
  Lines 136 to 141, the body of the loop over \<open>search_ids\<close>. The records are Python
  objects shared between \<open>recs\<close>, \<open>active_rec\<close> and \<open>search_rec\<close>, so the store is the list
  \<open>recs\<close>, the active record is position \<open>x\<close> and the candidate is position
  \<open>search_id\<close>; every read goes to the current store. \<open>recs[int(search_id)]\<close> raises
  \<open>IndexError\<close> past the end, \<open>.within\<close> on a missing geometry raises
  \<open>AttributeError\<close>, and the conjunction of line 139 is evaluated from the left, each
  dictionary lookup raising \<open>KeyError\<close> on a missing key.
\<close>

definition examine ::
  "('g, 'b) shapely \<Rightarrow> string \<Rightarrow> 'b \<Rightarrow> nat \<Rightarrow> 'g feature list \<Rightarrow> nat \<Rightarrow> error + 'g feature list" where
  "examine G group_field geom_buffer x recs search_id =
     (if length recs \<le> search_id then Inl IndexError
      else case geometry (recs ! search_id) of
        None \<Rightarrow> Inl AttributeError
      | Some sgeom \<Rightarrow>
          if is_within G sgeom geom_buffer then
            if fid (recs ! x) \<noteq> fid (recs ! search_id) \<and> fid (recs ! search_id) = search_id then
              ebind (getitem (properties (recs ! x)) group_field) (\<lambda>active_group.
              ebind (getitem (properties (recs ! search_id)) group_field) (\<lambda>search_group.
                if active_group = search_group then
                  ebind (getitem (properties (recs ! search_id)) ''INCLUDE'') (\<lambda>search_include.
                    if search_include = PStr ''Y'' then
                      ebind (getitem (properties (recs ! x)) ''PROCESSED'') (\<lambda>active_processed.
                        if active_processed = PStr ''N''
                        then Inr (recs[search_id := exclude (recs ! search_id)])
                        else Inr recs)
                    else Inr recs)
                else Inr recs))
            else Inr recs
          else Inr recs)"

text \<open>
  Lines 122 to 144, the body of the loop over \<open>x\<close>. \<open>input_file\<close> is the file as it is on
  disk, which \<open>records_within\<close> reads again. The progress report of lines 117 to 120
  depends on the clock only and is left out.
\<close>

definition turn ::
  "('g, 'b) shapely \<Rightarrow> string \<Rightarrow> real \<Rightarrow> 'g feature list \<Rightarrow> 'g feature list \<Rightarrow> nat \<Rightarrow>
     error + 'g feature list" where
  "turn G group_field radius input_file recs x =
     ebind (getitem (properties (recs ! x)) ''INCLUDE'') (\<lambda>active_include.
       if active_include = PStr ''N'' then Inr recs
       else
         ebind (getitem (properties (recs ! x)) ''PROCESSED'') (\<lambda>active_processed.
           if active_processed = PStr ''Y'' then Inr recs
           else case geometry (recs ! x) of
             None \<Rightarrow> Inr (recs[x := exclude (recs ! x)])
           | Some geom \<Rightarrow>
               ebind (foreach (examine G group_field (buffer G geom radius) x) recs
                        (records_within G input_file (buffer G geom (radius * 1.1))))
                 (\<lambda>recs'. Inr (recs'[x := reaffirm (recs' ! x)]))))"

text \<open>Lines 152 to 154: the records whose \<open>INCLUDE\<close> is \<open>'Y'\<close> are written, in store order.\<close>

fun write_kept :: "'g feature list \<Rightarrow> 'g feature list \<Rightarrow> error + 'g feature list" where
  "write_kept [] f_output = Inr f_output"
| "write_kept (r # rs) f_output =
     (case getitem (properties r) ''INCLUDE'' of
        Inl e \<Rightarrow> Inl e
      | Inr include \<Rightarrow> write_kept rs (if include = PStr ''Y'' then f_output @ [r] else f_output))"

text \<open>Lines 112 to 154: load the file, one pass over the positions, write the kept records.\<close>

definition thin_pass ::
  "('g, 'b) shapely \<Rightarrow> 'g feature list \<Rightarrow> string \<Rightarrow> real \<Rightarrow> error + 'g feature list" where
  "thin_pass G input_file group_field radius =
     foreach (turn G group_field radius input_file) input_file [0..<length input_file]"

definition thin_nodes ::
  "('g, 'b) shapely \<Rightarrow> 'g feature list \<Rightarrow> string \<Rightarrow> real \<Rightarrow> error + 'g feature list" where
  "thin_nodes G input_file group_field radius =
     ebind (thin_pass G input_file group_field radius) (\<lambda>recs. write_kept recs [])"

text \<open>
  Modelled from the spec: the feature store (fiona, which is not part of this
  repository) gives each record an id at creation, in insertion order, so a written
  sequence of records is read back with the ids \<open>0, 1, 2, ...\<close>.
\<close>

definition read_back :: "'g feature list \<Rightarrow> 'g feature list" where
  "read_back out = map (\<lambda>(i, r). r\<lparr>fid := i\<rparr>) (zip [0..<length out] out)"

definition wf_ids :: "'g feature list \<Rightarrow> bool" where
  "wf_ids recs = (map fid recs = [0..<length recs])"

text \<open>The two flags of a record, as the dictionary holds them.\<close>

definition flags :: "'g feature \<Rightarrow> pyval option \<times> pyval option" where
  "flags r = (map_of (properties r) ''INCLUDE'', map_of (properties r) ''PROCESSED'')"

definition kept :: "'g feature \<Rightarrow> bool" where
  "kept r = (map_of (properties r) ''INCLUDE'' = Some (PStr ''Y''))"

text \<open>
  A geometry to run the model on: points of the plane, the buffer of a point as the
  open disc around it, and the bounds of a buffer as the square around that disc.
\<close>

type_synonym point = "real \<times> real"

definition disc_buffer :: "point \<Rightarrow> real \<Rightarrow> point \<times> real" where
  "disc_buffer p r = (p, r)"

definition disc_within :: "point \<Rightarrow> point \<times> real \<Rightarrow> bool" where
  "disc_within q b = (0 < snd b \<and>
     (fst q - fst (fst b))\<^sup>2 + (snd q - snd (fst b))\<^sup>2 < (snd b)\<^sup>2)"

definition disc_in_bounds :: "point \<Rightarrow> point \<times> real \<Rightarrow> bool" where
  "disc_in_bounds q b = (0 < snd b \<and>
     \<bar>fst q - fst (fst b)\<bar> \<le> snd b \<and> \<bar>snd q - snd (fst b)\<bar> \<le> snd b)"

definition disc :: "(point, point \<times> real) shapely" where
  "disc = \<lparr>buffer = disc_buffer, is_within = disc_within, in_bounds = disc_in_bounds\<rparr>"

definition distance :: "point \<Rightarrow> point \<Rightarrow> real" where
  "distance p q = sqrt ((fst p - fst q)\<^sup>2 + (snd p - snd q)\<^sup>2)"

text \<open>A point record as \<open>add_nodes\<close> writes it, with one attribute \<open>label\<close>.\<close>

definition node :: "nat \<Rightarrow> point \<Rightarrow> string \<Rightarrow> point feature" where
  "node i p l = \<lparr>fid = i, geometry = Some p, properties = node_props [(''label'', PStr l)]\<rparr>"

text \<open>
  The condition of lines 136 to 139 under which the candidate at position \<open>k\<close> is
  excluded by the active record at position \<open>x\<close>, read off the store.
\<close>

definition eligible ::
  "('g, 'b) shapely \<Rightarrow> string \<Rightarrow> 'b \<Rightarrow> 'g feature list \<Rightarrow> nat \<Rightarrow> nat \<Rightarrow> bool" where
  "eligible G group_field geom_buffer recs x k =
     (k < length recs
      \<and> (case geometry (recs ! k) of None \<Rightarrow> False | Some p \<Rightarrow> is_within G p geom_buffer)
      \<and> fid (recs ! x) \<noteq> fid (recs ! k) \<and> fid (recs ! k) = k
      \<and> map_of (properties (recs ! x)) group_field \<noteq> None
      \<and> map_of (properties (recs ! x)) group_field = map_of (properties (recs ! k)) group_field
      \<and> kept (recs ! k)
      \<and> map_of (properties (recs ! x)) ''PROCESSED'' = Some (PStr ''N''))"

text \<open>The test of line 124 lets the record through: it takes its turn as the active record.\<close>

definition probing :: "'g feature \<Rightarrow> bool" where
  "probing r = (map_of (properties r) ''INCLUDE'' \<noteq> None
      \<and> map_of (properties r) ''INCLUDE'' \<noteq> Some (PStr ''N'')
      \<and> map_of (properties r) ''PROCESSED'' \<noteq> None
      \<and> map_of (properties r) ''PROCESSED'' \<noteq> Some (PStr ''Y''))"

text \<open>
  The relation between the store before the loop over \<open>search_ids\<close> and a store during
  or after it: the active record is untouched, and a record that changed is a candidate
  that met the condition of line 139 and was excluded.
\<close>

definition scanned ::
  "('g, 'b) shapely \<Rightarrow> string \<Rightarrow> 'b \<Rightarrow> nat \<Rightarrow> nat list \<Rightarrow> 'g feature list \<Rightarrow> 'g feature list \<Rightarrow> bool" where
  "scanned G gf gb x sids recs cur =
     (length cur = length recs \<and> cur ! x = recs ! x
      \<and> (\<forall>k<length recs. cur ! k = recs ! k
            \<or> (cur ! k = exclude (recs ! k) \<and> k \<in> set sids \<and> eligible G gf gb recs x k)))"

text \<open>
  What a record carries apart from its two flags: its id, its geometry and its other
  attributes, in their order.
\<close>

definition payload :: "'g feature \<Rightarrow> nat \<times> 'g option \<times> props" where
  "payload r = (fid r, geometry r,
     filter (\<lambda>kv. fst kv \<noteq> ''INCLUDE'' \<and> fst kv \<noteq> ''PROCESSED'') (properties r))"

text \<open>
  The two states of a record of the specification: open (kept and not settled, as
  \<open>add_nodes\<close> writes every record) or excluded (not kept and settled).
\<close>

definition open_or_excluded :: "'g feature \<Rightarrow> bool" where
  "open_or_excluded r = (flags r = (Some (PStr ''Y''), Some (PStr ''N''))
                       \<or> flags r = (Some (PStr ''N''), Some (PStr ''Y'')))"

text \<open>Both flags of the record hold \<open>'Y'\<close> or \<open>'N'\<close>, the two values the code writes.\<close>

definition bool_flags :: "'g feature \<Rightarrow> bool" where
  "bool_flags r =
     ((map_of (properties r) ''INCLUDE'' = Some (PStr ''Y'')
        \<or> map_of (properties r) ''INCLUDE'' = Some (PStr ''N''))
      \<and> (map_of (properties r) ''PROCESSED'' = Some (PStr ''Y'')
        \<or> map_of (properties r) ''PROCESSED'' = Some (PStr ''N'')))"

text \<open>Both records have the group field, with different values.\<close>

definition distinct_groups :: "string \<Rightarrow> 'g feature \<Rightarrow> 'g feature \<Rightarrow> bool" where
  "distinct_groups group_field r1 r2 =
     (map_of (properties r1) group_field \<noteq> None \<and> map_of (properties r2) group_field \<noteq> None
      \<and> map_of (properties r1) group_field \<noteq> map_of (properties r2) group_field)"

text \<open>
  The candidate \<open>rj\<close> is one that the turn of \<open>ra\<close> compares with it: the bounding-box
  filter yields it and it lies within the exact buffer.
\<close>

definition comparable :: "('g, 'b) shapely \<Rightarrow> real \<Rightarrow> 'g feature \<Rightarrow> 'g feature \<Rightarrow> bool" where
  "comparable G radius ra rj =
     (case geometry ra of None \<Rightarrow> False
      | Some pa \<Rightarrow> (case geometry rj of None \<Rightarrow> False
          | Some pj \<Rightarrow> in_bounds G pj (buffer G pa (radius * 1.1))
                       \<and> is_within G pj (buffer G pa radius)))"

text \<open>
  The invariant of the pass over the store \<open>recs0\<close>, after the turns of the positions
  \<open>done\<close>: every record is as it was or excluded, and a record that has probed and is
  still open has a geometry and a group other than that of every kept record it is
  compared with.
\<close>

definition pass_inv ::
  "('g, 'b) shapely \<Rightarrow> string \<Rightarrow> real \<Rightarrow> 'g feature list \<Rightarrow> nat list \<Rightarrow> 'g feature list \<Rightarrow> bool" where
  "pass_inv G group_field radius recs0 done cur =
     (length cur = length recs0
      \<and> (\<forall>a\<in>set done. a < length recs0)
      \<and> (\<forall>k<length recs0. cur ! k = recs0 ! k \<or> cur ! k = exclude (recs0 ! k))
      \<and> (\<forall>a\<in>set done. probing (cur ! a) \<longrightarrow>
            geometry (cur ! a) \<noteq> None
            \<and> (\<forall>j<length recs0. j \<noteq> a \<and> kept (cur ! j) \<and> comparable G radius (cur ! a) (cur ! j)
                  \<longrightarrow> distinct_groups group_field (cur ! a) (cur ! j))))"

section \<open>Properties of the sampling loop\<close>

lemma write_nodes_stop:
  "\<not> real_of_int d < glength geom \<Longrightarrow>
     write_nodes glength interpolate interval geom r d out = Some out"
  by (subst write_nodes.simps) simp

lemma write_nodes_pos:
  assumes "0 < interval"
  shows "nat \<lceil>(glength geom - real_of_int d) / real_of_int interval\<rceil> = n \<Longrightarrow>
    write_nodes glength interpolate interval geom r d out =
      Some (out @ map (\<lambda>k. (interpolate geom (real_of_int (d + int k * interval)), r)) [0..<n])"
proof (induction n arbitrary: d out)
  case 0
  then have "\<lceil>(glength geom - real_of_int d) / real_of_int interval\<rceil> \<le> 0" by simp
  then have "(glength geom - real_of_int d) / real_of_int interval \<le> 0"
    by (simp add: ceiling_le_iff)
  with assms have "\<not> real_of_int d < glength geom"
    by (simp add: divide_le_0_iff)
  then show ?case by (simp add: write_nodes_stop)
next
  case (Suc n)
  let ?q = "(glength geom - real_of_int d) / real_of_int interval"
  from Suc.prems have c: "\<lceil>?q\<rceil> = int n + 1" by linarith
  then have "0 < ?q" by (smt (verit) ceiling_le_zero of_nat_0_le_iff)
  with assms have lt: "real_of_int d < glength geom"
    by (simp add: zero_less_divide_iff)
  have "(glength geom - real_of_int (d + interval)) / real_of_int interval = ?q - 1"
    using assms by (simp add: field_simps)
  then have "nat \<lceil>(glength geom - real_of_int (d + interval)) / real_of_int interval\<rceil> = n"
    using c by simp
  from Suc.IH [OF this]
  have step: "write_nodes glength interpolate interval geom r (d + interval)
       (out @ [(interpolate geom (real_of_int d), r)]) =
     Some ((out @ [(interpolate geom (real_of_int d), r)]) @
       map (\<lambda>k. (interpolate geom (real_of_int (d + interval + int k * interval)), r)) [0..<n])" .
  have shift: "map (\<lambda>k. (interpolate geom (real_of_int (d + int k * interval)), r)) [0..<Suc n] =
     (interpolate geom (real_of_int d), r) #
     map (\<lambda>k. (interpolate geom (real_of_int (d + interval + int k * interval)), r)) [0..<n]"
    unfolding upt_conv_Cons [OF zero_less_Suc] map_Suc_upt [symmetric]
    by (simp add: algebra_simps comp_def)
  show ?case
    by (subst write_nodes.simps)
      (simp only: lt if_True step shift append_assoc append_Cons append_Nil)
qed

lemma write_nodes_from_zero:
  assumes "0 < interval"
  shows "write_nodes glength interpolate interval geom r 0 out =
    Some (out @ map (\<lambda>d. (interpolate geom (real_of_int d), r))
                  (sample_distances interval (glength geom)))"
  using write_nodes_pos [OF assms, of glength geom 0 _ interpolate r out]
  by (simp add: sample_distances_def comp_def)

text \<open>A run of the loop that returns was never entered with a non-positive step.\<close>

lemma write_nodes_no_result:
  "write_nodes glength interpolate interval geom r d out = Some y \<Longrightarrow>
     \<not> (interval \<le> 0 \<and> real_of_int d < glength geom)"
  apply (erule write_nodes.raw_induct
    [where P = "\<lambda>glength interpolate interval geom r d out y.
                  \<not> (interval \<le> 0 \<and> real_of_int d < glength geom)", rotated])
  apply (simp split: if_splits)
  apply (metis add.commute add_mono_thms_linordered_field(4) add_0 of_int_add of_int_le_0_iff)
  done

lemma write_nodes_diverges:
  "interval \<le> 0 \<Longrightarrow> real_of_int d < glength geom \<Longrightarrow>
     write_nodes glength interpolate interval geom r d out = None"
  using write_nodes_no_result [of glength interpolate interval geom r d out]
  by (cases "write_nodes glength interpolate interval geom r d out") auto

lemma sample_distances_below:
  assumes "0 < interval" and "d \<in> set (sample_distances interval L)"
  shows "real_of_int d < L"
proof -
  from assms(2) obtain k where k: "k < nat \<lceil>L / real_of_int interval\<rceil>" and d: "d = int k * interval"
    by (auto simp: sample_distances_def)
  from k have "int k < \<lceil>L / real_of_int interval\<rceil>" by linarith
  then have "real k < L / real_of_int interval"
    by (metis less_ceiling_iff of_int_of_nat_eq)
  with assms(1) have "real k * real_of_int interval < L"
    by (simp add: pos_less_divide_eq)
  with d show ?thesis by simp
qed

lemma ceiling_floor_cases:
  "\<lceil>x :: real\<rceil> = (if x \<in> \<int> then \<lfloor>x\<rfloor> else \<lfloor>x\<rfloor> + 1)"
proof (cases "x \<in> \<int>")
  case True
  then show ?thesis by (auto elim: Ints_cases)
next
  case False
  then have "x \<noteq> real_of_int \<lfloor>x\<rfloor>" by (metis Ints_of_int)
  with False show ?thesis by (simp add: ceiling_altdef)
qed

text \<open>
  Claim C1, as amended. For \<open>I > 0\<close> the points sampled from a line of length \<open>L\<close> lie
  at the distances \<open>0, I, 2I, ...\<close> strictly below \<open>L\<close>; their number is the ceiling
  of \<open>L / I\<close>, which is \<open>floor(L / I) + 1\<close> when \<open>L\<close> is not a multiple of \<open>I\<close> and
  \<open>floor(L / I)\<close> when it is.
\<close>

theorem add_nodes_sampling:
  assumes "0 < interval" and "lgeometry rec = Some geom" and "0 \<le> glength geom"
  shows "add_nodes glength interpolate [rec] interval =
           Some (map (\<lambda>d. (interpolate geom (real_of_int d), node_props (lproperties rec)))
                  (sample_distances interval (glength geom)))
       \<and> (\<forall>d\<in>set (sample_distances interval (glength geom)). real_of_int d < glength geom)
       \<and> int (length (sample_distances interval (glength geom))) =
           (if glength geom / real_of_int interval \<in> \<int>
            then \<lfloor>glength geom / real_of_int interval\<rfloor>
            else \<lfloor>glength geom / real_of_int interval\<rfloor> + 1)"
proof (intro conjI)
  show "add_nodes glength interpolate [rec] interval =
           Some (map (\<lambda>d. (interpolate geom (real_of_int d), node_props (lproperties rec)))
                  (sample_distances interval (glength geom)))"
    using assms(2) by (simp add: add_nodes_def write_nodes_from_zero [OF assms(1)])
  show "\<forall>d\<in>set (sample_distances interval (glength geom)). real_of_int d < glength geom"
    using sample_distances_below [OF assms(1)] by blast
  have "0 \<le> glength geom / real_of_int interval"
    using assms(1,3) by simp
  then have "0 \<le> \<lceil>glength geom / real_of_int interval\<rceil>"
    by (smt (verit) ceiling_le_zero ceiling_mono ceiling_zero)
  then have "int (length (sample_distances interval (glength geom))) =
      \<lceil>glength geom / real_of_int interval\<rceil>"
    by (simp add: sample_distances_def)
  then show "int (length (sample_distances interval (glength geom))) =
           (if glength geom / real_of_int interval \<in> \<int>
            then \<lfloor>glength geom / real_of_int interval\<rfloor>
            else \<lfloor>glength geom / real_of_int interval\<rfloor> + 1)"
    by (simp only: ceiling_floor_cases)
qed

text \<open>
  The amended C1 on a line of length 9000 sampled every 2500: four points, at 0, 2500,
  5000 and 7500, and here four is \<open>floor(9000 / 2500) + 1\<close>.
\<close>

theorem add_nodes_sampling_witness:
  "add_nodes seg_length seg_interpolate
       [\<lparr>lgeometry = Some 9000, lproperties = [(''label'', PStr ''I-5'')]\<rparr>] 2500 =
     Some [(0, node_props [(''label'', PStr ''I-5'')]), (2500, node_props [(''label'', PStr ''I-5'')]),
           (5000, node_props [(''label'', PStr ''I-5'')]), (7500, node_props [(''label'', PStr ''I-5'')])]
   \<and> int (length (sample_distances 2500 (seg_length 9000))) =
       \<lfloor>seg_length 9000 / real_of_int 2500\<rfloor> + 1"
proof -
  have ni: "(18 / 5 :: real) \<notin> \<int>"
  proof
    assume "(18 / 5 :: real) \<in> \<int>"
    then obtain k :: int where "(18 / 5 :: real) = of_int k" by (auto elim: Ints_cases)
    then have "real_of_int (5 * k) = real_of_int 18" by simp
    then have "5 * k = 18" by (simp only: of_int_eq_iff)
    then show False by presburger
  qed
  have c: "\<lceil>18 / 5 :: real\<rceil> = 4" by (simp add: ceiling_eq_iff)
  have sd: "sample_distances 2500 (seg_length 9000) = [0, 2500, 5000, 7500]"
    by (simp add: sample_distances_def seg_length_def c upt_rec)
  show ?thesis
    using add_nodes_sampling [of 2500
        "\<lparr>lgeometry = Some 9000, lproperties = [(''label'', PStr ''I-5'')]\<rparr>"
        "9000" seg_length seg_interpolate] ni
    by (simp add: sd) (simp add: seg_length_def seg_interpolate_def)
qed

text \<open>
  Claim C1 as the specification words it fails on the specification's own example: a
  line of length 10000 sampled every 2500 gives the four points at 0, 2500, 5000 and
  7500, while \<open>floor(10000 / 2500) + 1\<close> is five.
\<close>

theorem sampling_count_counterexample:
  "add_nodes seg_length seg_interpolate [\<lparr>lgeometry = Some 10000, lproperties = []\<rparr>] 2500 =
     Some [(0, node_props []), (2500, node_props []), (5000, node_props []), (7500, node_props [])]
   \<and> int (length [(0 :: real, node_props []), (2500, node_props []), (5000, node_props []),
                   (7500, node_props [])])
       \<noteq> \<lfloor>seg_length 10000 / real_of_int 2500\<rfloor> + 1"
proof -
  have sd: "sample_distances 2500 10000 = [0, 2500, 5000, 7500]"
    by (simp add: sample_distances_def upt_rec)
  show ?thesis
    by (simp add: add_nodes_def write_nodes_from_zero seg_length_def seg_interpolate_def sd)
qed

text \<open>
  Claim C2 as worded fails: the loop test \<open>d < geom.length\<close> is false at once on a line
  of length 0, so no point is written, not one.
\<close>

theorem zero_length_counterexample:
  "add_nodes seg_length seg_interpolate [\<lparr>lgeometry = Some 0, lproperties = []\<rparr>] 1000 = Some []"
  by (simp add: add_nodes_def write_nodes_stop seg_length_def)

text \<open>
  Claim C2, as amended. For a line of length 0 and every interval \<open>I > 0\<close>, sampling
  returns and emits no point.
\<close>

theorem add_nodes_zero_length:
  assumes "0 < interval" and "lgeometry rec = Some geom" and "glength geom = 0"
  shows "add_nodes glength interpolate [rec] interval = Some []"
  using assms by (simp add: add_nodes_def write_nodes_stop)

theorem add_nodes_zero_length_witness:
  "add_nodes seg_length seg_interpolate
     [\<lparr>lgeometry = Some 0, lproperties = [(''label'', PStr ''I-5'')]\<rparr>] 2000 = Some []"
  using add_nodes_zero_length [of 2000
      "\<lparr>lgeometry = Some 0, lproperties = [(''label'', PStr ''I-5'')]\<rparr>" 0
      seg_length seg_interpolate]
  by (simp add: seg_length_def)

text \<open>
  Claim C3 as worded fails: \<open>add_nodes\<close> never looks at the sign of the interval. With
  interval 0 on a line of length 0 it returns normally, and with interval \<open>-5\<close> on a
  line of length 10 the loop never ends, so nothing is raised either.
\<close>

theorem nonpositive_interval_counterexample:
  "add_nodes seg_length seg_interpolate [\<lparr>lgeometry = Some 0, lproperties = []\<rparr>] 0 = Some []
   \<and> add_nodes seg_length seg_interpolate [\<lparr>lgeometry = Some 10, lproperties = []\<rparr>] (- 5) = None"
  by (simp add: add_nodes_def write_nodes_stop write_nodes_diverges seg_length_def)

text \<open>
  Claim C3, as amended. For every interval \<open>I \<le> 0\<close> sampling raises nothing: on a
  line of positive length it never returns, and on a line of length 0 (or less) it
  returns with no point written.
\<close>

theorem add_nodes_nonpositive_interval:
  assumes "interval \<le> 0" and "lgeometry rec = Some geom"
  shows "(0 < glength geom \<longrightarrow> add_nodes glength interpolate [rec] interval = None)
       \<and> (glength geom \<le> 0 \<longrightarrow> add_nodes glength interpolate [rec] interval = Some [])"
  using assms by (simp add: add_nodes_def write_nodes_stop write_nodes_diverges)

theorem add_nodes_nonpositive_interval_witness:
  "add_nodes seg_length seg_interpolate [\<lparr>lgeometry = Some 10000, lproperties = []\<rparr>] 0 = None
   \<and> add_nodes seg_length seg_interpolate [\<lparr>lgeometry = Some 0, lproperties = []\<rparr>] (- 1000) = Some []"
  using add_nodes_nonpositive_interval [of 0 "\<lparr>lgeometry = Some 10000, lproperties = []\<rparr>" 10000
      seg_length seg_interpolate]
    add_nodes_nonpositive_interval [of "- 1000" "\<lparr>lgeometry = Some 0, lproperties = []\<rparr>" 0
      seg_length seg_interpolate]
  by (simp add: seg_length_def)

section \<open>Properties of the thinning pass\<close>

lemma foreach_prefix_invariant:
  assumes "foreach body s as = Inr s'"
    and "I pre s"
    and "\<And>done a s t. I (pre @ done) s \<Longrightarrow> a \<in> set as \<Longrightarrow> body s a = Inr t \<Longrightarrow> I (pre @ done @ [a]) t"
  shows "I (pre @ as) s'"
  using assms
proof (induction as arbitrary: s pre)
  case Nil
  then show ?case by simp
next
  case (Cons a as)
  from Cons.prems(1) obtain t where t: "body s a = Inr t" and rest: "foreach body t as = Inr s'"
    by (auto split: sum.splits)
  from Cons.prems(3) [of "[]" s a t] Cons.prems(2) t have "I (pre @ [a]) t" by simp
  moreover have "\<And>done b u v. I ((pre @ [a]) @ done) u \<Longrightarrow> b \<in> set as \<Longrightarrow> body u b = Inr v
      \<Longrightarrow> I ((pre @ [a]) @ done @ [b]) v"
    using Cons.prems(3) [of "a # _"] by simp
  ultimately have "I ((pre @ [a]) @ as) s'"
    using Cons.IH [OF rest] by blast
  then show ?case by simp
qed

lemma foreach_invariant:
  assumes "foreach body s as = Inr s'"
    and "I s"
    and "\<And>s a t. I s \<Longrightarrow> a \<in> set as \<Longrightarrow> body s a = Inr t \<Longrightarrow> I t"
  shows "I s'"
  using foreach_prefix_invariant [where I = "\<lambda>_. I" and pre = "[]", OF assms(1,2)] assms(3)
  by blast


lemma exclude_simps [simp]:
  "fid (exclude r) = fid r" "geometry (exclude r) = geometry r"
  "map_of (properties (exclude r)) ''INCLUDE'' = Some (PStr ''N'')"
  "map_of (properties (exclude r)) ''PROCESSED'' = Some (PStr ''Y'')"
  "k \<noteq> ''INCLUDE'' \<Longrightarrow> k \<noteq> ''PROCESSED'' \<Longrightarrow>
     map_of (properties (exclude r)) k = map_of (properties r) k"
  by (simp_all add: exclude_def update_conv')

lemma reaffirm_simps [simp]:
  "fid (reaffirm r) = fid r" "geometry (reaffirm r) = geometry r"
  "map_of (properties (reaffirm r)) ''INCLUDE'' = Some (PStr ''Y'')"
  "map_of (properties (reaffirm r)) ''PROCESSED'' = Some (PStr ''N'')"
  "k \<noteq> ''INCLUDE'' \<Longrightarrow> k \<noteq> ''PROCESSED'' \<Longrightarrow>
     map_of (properties (reaffirm r)) k = map_of (properties r) k"
  by (simp_all add: reaffirm_def update_conv')

lemma reaffirm_open:
  "flags r = (Some (PStr ''Y''), Some (PStr ''N'')) \<Longrightarrow> reaffirm r = r"
  by (simp add: reaffirm_def flags_def update_triv)

lemma not_kept_exclude [simp]: "\<not> kept (exclude r)"
  by (simp add: kept_def)

lemma kept_reaffirm [simp]: "kept (reaffirm r)"
  by (simp add: kept_def)

lemma examine_eligible:
  "x < length recs \<Longrightarrow> eligible G gf gb recs x k \<Longrightarrow>
     examine G gf gb x recs k = Inr (recs[k := exclude (recs ! k)])"
  by (auto simp: eligible_def examine_def ebind_def getitem_def kept_def split: option.splits)

lemma examine_not_eligible:
  "examine G gf gb x recs k = Inr recs' \<Longrightarrow> \<not> eligible G gf gb recs x k \<Longrightarrow> recs' = recs"
  by (auto simp: eligible_def examine_def ebind_def getitem_def kept_def
      split: option.splits if_splits sum.splits)

lemma examine_cases:
  assumes "examine G gf gb x recs k = Inr recs'"
  shows "(eligible G gf gb recs x k \<and> recs' = recs[k := exclude (recs ! k)])
       \<or> (\<not> eligible G gf gb recs x k \<and> recs' = recs)"
  using assms
  by (auto simp: eligible_def examine_def ebind_def getitem_def kept_def
      split: option.splits if_splits sum.splits)

lemma eligible_cong:
  "length cur = length recs \<Longrightarrow> cur ! x = recs ! x \<Longrightarrow> cur ! k = recs ! k \<Longrightarrow>
     eligible G gf gb cur x k = eligible G gf gb recs x k"
  by (simp add: eligible_def)

lemma eligible_neq: "eligible G gf gb recs x k \<Longrightarrow> k \<noteq> x"
  by (auto simp: eligible_def)

lemma scanned_refl: "scanned G gf gb x sids recs recs"
  by (simp add: scanned_def)

lemma scanned_step:
  assumes "scanned G gf gb x sids recs cur" and "a \<in> set sids"
    and "examine G gf gb x cur a = Inr t"
  shows "scanned G gf gb x sids recs t"
proof -
  from examine_cases [OF assms(3)] show ?thesis
  proof
    assume "\<not> eligible G gf gb cur x a \<and> t = cur"
    with assms(1) show ?thesis by simp
  next
    assume e: "eligible G gf gb cur x a \<and> t = cur[a := exclude (cur ! a)]"
    from assms(1) have len: "length cur = length recs" and cx: "cur ! x = recs ! x"
      by (simp_all add: scanned_def)
    from e have a: "a < length recs" "a \<noteq> x" "kept (cur ! a)"
      using len by (auto simp: eligible_def)
    from assms(1) a have ca: "cur ! a = recs ! a"
      by (auto simp: scanned_def)
    from e have er: "eligible G gf gb recs x a"
      using eligible_cong [OF len cx ca, of G gf gb] by blast
    show ?thesis
      unfolding scanned_def
    proof (intro conjI allI impI)
      show "length t = length recs" using e len by simp
      show "t ! x = recs ! x" using e a cx by simp
      fix k assume k: "k < length recs"
      show "t ! k = recs ! k \<or> t ! k = exclude (recs ! k) \<and> k \<in> set sids \<and> eligible G gf gb recs x k"
      proof (cases "k = a")
        case True
        with e a len ca er assms(2) show ?thesis by simp
      next
        case False
        with e have "t ! k = cur ! k" by simp
        with assms(1) k show ?thesis by (simp add: scanned_def)
      qed
    qed
  qed
qed

lemma scan_scanned:
  assumes "foreach (examine G gf gb x) recs sids = Inr recs'"
  shows "scanned G gf gb x sids recs recs'"
  using assms scanned_refl scanned_step
  by (rule foreach_invariant [where I = "scanned G gf gb x sids recs"])

lemma turn_skip:
  "turn G gf radius file recs x = Inr recs' \<Longrightarrow> \<not> probing (recs ! x) \<Longrightarrow> recs' = recs"
  by (auto simp: turn_def probing_def ebind_def getitem_def split: option.splits if_splits)

lemma turn_null:
  "probing (recs ! x) \<Longrightarrow> geometry (recs ! x) = None \<Longrightarrow>
     turn G gf radius file recs x = Inr (recs[x := exclude (recs ! x)])"
  by (auto simp: turn_def probing_def ebind_def getitem_def split: option.splits if_splits)

lemma turn_probe:
  "probing (recs ! x) \<Longrightarrow> geometry (recs ! x) = Some g \<Longrightarrow>
     turn G gf radius file recs x =
       ebind (foreach (examine G gf (buffer G g radius) x) recs
                (records_within G file (buffer G g (radius * 1.1))))
         (\<lambda>recs'. Inr (recs'[x := reaffirm (recs' ! x)]))"
  by (auto simp: turn_def probing_def ebind_def getitem_def split: option.splits if_splits)

lemma turn_probe_Inr:
  assumes "turn G gf radius file recs x = Inr recs'" and "probing (recs ! x)"
    and "geometry (recs ! x) = Some g"
  obtains cur where
    "foreach (examine G gf (buffer G g radius) x) recs
       (records_within G file (buffer G g (radius * 1.1))) = Inr cur"
    and "recs' = cur[x := reaffirm (cur ! x)]"
  using assms by (auto simp: turn_probe ebind_def split: sum.splits)

text \<open>What one turn does to the store.\<close>

lemma turn_length:
  assumes "turn G gf radius file recs x = Inr recs'"
  shows "length recs' = length recs"
proof (cases "probing (recs ! x)")
  case False
  with turn_skip [OF assms(1)] show ?thesis by blast
next
  case True
  show ?thesis
  proof (cases "geometry (recs ! x)")
    case None
    with True assms show ?thesis by (auto simp: turn_null)
  next
    case (Some g)
    from turn_probe_Inr [OF assms True Some] obtain cur where
      c: "foreach (examine G gf (buffer G g radius) x) recs
           (records_within G file (buffer G g (radius * 1.1))) = Inr cur"
      and r: "recs' = cur[x := reaffirm (cur ! x)]" by blast
    from scan_scanned [OF c] r show ?thesis by (simp add: scanned_def)
  qed
qed

lemma turn_other:
  assumes "turn G gf radius file recs x = Inr recs'" and "k < length recs" and "k \<noteq> x"
  shows "recs' ! k = recs ! k
       \<or> (recs' ! k = exclude (recs ! k) \<and> probing (recs ! x)
           \<and> (\<exists>g. geometry (recs ! x) = Some g
                 \<and> k \<in> set (records_within G file (buffer G g (radius * 1.1)))
                 \<and> eligible G gf (buffer G g radius) recs x k))"
proof (cases "probing (recs ! x)")
  case False
  with turn_skip [OF assms(1)] show ?thesis by blast
next
  case True
  show ?thesis
  proof (cases "geometry (recs ! x)")
    case None
    with True assms show ?thesis by (auto simp: turn_null)
  next
    case (Some g)
    from turn_probe_Inr [OF assms(1) True Some] obtain cur where
      c: "foreach (examine G gf (buffer G g radius) x) recs
           (records_within G file (buffer G g (radius * 1.1))) = Inr cur"
      and r: "recs' = cur[x := reaffirm (cur ! x)]" by blast
    from r assms(3) have "recs' ! k = cur ! k" by simp
    with scan_scanned [OF c] assms(2) True Some show ?thesis
      by (auto simp: scanned_def)
  qed
qed

lemma turn_self:
  assumes "turn G gf radius file recs x = Inr recs'" and "x < length recs"
  shows "recs' ! x =
     (if \<not> probing (recs ! x) then recs ! x
      else if geometry (recs ! x) = None then exclude (recs ! x) else reaffirm (recs ! x))"
proof (cases "probing (recs ! x)")
  case False
  with turn_skip [OF assms(1)] show ?thesis by auto
next
  case True
  show ?thesis
  proof (cases "geometry (recs ! x)")
    case None
    with True assms show ?thesis by (auto simp: turn_null)
  next
    case (Some g)
    from turn_probe_Inr [OF assms(1) True Some] obtain cur where
      c: "foreach (examine G gf (buffer G g radius) x) recs
           (records_within G file (buffer G g (radius * 1.1))) = Inr cur"
      and r: "recs' = cur[x := reaffirm (cur ! x)]" by blast
    from scan_scanned [OF c] have "length cur = length recs" "cur ! x = recs ! x"
      by (simp_all add: scanned_def)
    with r assms(2) True Some show ?thesis by simp
  qed
qed

section \<open>The claims about one turn\<close>

text \<open>The equations that evaluate a run of the model on a concrete store.\<close>

lemmas run_simps = turn_def examine_def records_within_def disc_def disc_buffer_def disc_within_def
  disc_in_bounds_def node_def node_props_def ebind_def getitem_def exclude_def reaffirm_def
  thin_nodes_def thin_pass_def kept_def flags_def probing_def

text \<open>
  Claim C7. During the turn of the active record at position \<open>x\<close>, a record at another
  position \<open>k\<close> whose group-field value differs from the active record's is left as it
  is, wherever it lies: no record sets the keep flag of a record of another group to
  false. The statement holds for every store and every pair of positions, so it covers
  both directions of a pair and every turn of a run.
\<close>

theorem group_isolation:
  assumes "turn G group_field radius input_file recs x = Inr recs'"
    and "k < length recs" and "k \<noteq> x"
    and "map_of (properties (recs ! x)) group_field = Some a"
    and "map_of (properties (recs ! k)) group_field = Some b"
    and "a \<noteq> b"
  shows "recs' ! k = recs ! k"
  using turn_other [OF assms(1,2,3)] assms(4,5,6) by (auto simp: eligible_def)

text \<open>
  The specification's example for C7: \<open>A = (0, 0)\<close> of group \<open>I-5\<close> and \<open>B = (100, 0)\<close> of
  group \<open>US-101\<close> with radius 500; the turn of \<open>A\<close> leaves \<open>B\<close> alone and both are written.
\<close>

theorem group_isolation_witness:
  "turn disc ''label'' 500 [node 0 (0, 0) ''I-5'', node 1 (100, 0) ''US-101'']
       [node 0 (0, 0) ''I-5'', node 1 (100, 0) ''US-101''] 0 =
     Inr [node 0 (0, 0) ''I-5'', node 1 (100, 0) ''US-101'']
   \<and> [node 0 (0, 0) ''I-5'', node 1 (100, 0) ''US-101''] ! 1 = node 1 (100, 0) ''US-101''
   \<and> thin_nodes disc [node 0 (0, 0) ''I-5'', node 1 (100, 0) ''US-101''] ''label'' 500 =
       Inr [node 0 (0, 0) ''I-5'', node 1 (100, 0) ''US-101'']"
proof -
  let ?recs = "[node 0 (0, 0) ''I-5'', node 1 (100, 0) ''US-101'']"
  have t: "turn disc ''label'' 500 ?recs ?recs 0 = Inr ?recs"
    by (simp add: run_simps)
  have "?recs ! 1 = node 1 (100, 0) ''US-101''"
    using group_isolation [OF t, of 1 "PStr ''I-5''" "PStr ''US-101''"]
    by (simp add: node_def node_props_def)
  moreover have "thin_nodes disc ?recs ''label'' 500 = Inr ?recs"
    by (simp add: run_simps upt_rec)
  ultimately show ?thesis using t by simp
qed





lemma disc_within_distance:
  assumes "disc_within q (disc_buffer p r)"
  shows "distance p q \<le> r"
proof -
  from assms have r: "0 < r" and s: "(fst q - fst p)\<^sup>2 + (snd q - snd p)\<^sup>2 < r\<^sup>2"
    by (simp_all add: disc_within_def disc_buffer_def)
  have "(fst p - fst q)\<^sup>2 + (snd p - snd q)\<^sup>2 = (fst q - fst p)\<^sup>2 + (snd q - snd p)\<^sup>2"
    by (simp add: power2_commute)
  with s have "(fst p - fst q)\<^sup>2 + (snd p - snd q)\<^sup>2 \<le> r\<^sup>2" by simp
  with r show ?thesis unfolding distance_def by (intro real_le_lsqrt) simp_all
qed

text \<open>
  Claim C10. If the turn of the active record at position \<open>x\<close> takes the keep flag of a
  record at position \<open>k\<close> with coordinate \<open>q\<close> from true to false, with radius \<open>r > 0\<close>
  and an exact buffer that lies inside the disc of radius \<open>r\<close>, then the active record
  is another record with another id and the same group-field value, and \<open>q\<close> lies within
  its exact buffer, at distance at most \<open>r\<close>: the margin of the coarse search alone
  never excludes.
\<close>

theorem exclusion_inside_exact_buffer:
  assumes "turn G group_field radius input_file recs x = Inr recs'"
    and "x < length recs" and "k < length recs"
    and "kept (recs ! k)" and "\<not> kept (recs' ! k)"
    and "geometry (recs ! k) = Some q"
    and "0 < radius"
    and "\<forall>p q. is_within G q (buffer G p radius) \<longrightarrow> distance p q \<le> radius"
  shows "k \<noteq> x \<and> fid (recs ! x) \<noteq> fid (recs ! k)
       \<and> map_of (properties (recs ! k)) group_field \<noteq> None
       \<and> map_of (properties (recs ! x)) group_field = map_of (properties (recs ! k)) group_field
       \<and> (\<exists>p. geometry (recs ! x) = Some p \<and> is_within G q (buffer G p radius)
               \<and> distance p q \<le> radius)"
proof -
  have neq: "k \<noteq> x"
  proof
    assume "k = x"
    with turn_self [OF assms(1,2)] assms(4,5,6) show False
      by (auto split: if_splits)
  qed
  from turn_other [OF assms(1,3) neq] assms(4,5)
  obtain g where g: "geometry (recs ! x) = Some g"
    and e: "eligible G group_field (buffer G g radius) recs x k"
    by auto
  from e assms(6) have w: "is_within G q (buffer G g radius)"
    by (simp add: eligible_def)
  with assms(8) have "distance g q \<le> radius" by blast
  with neq g e w show ?thesis by (auto simp: eligible_def)
qed

text \<open>
  C10 on the three points at 0, 1000 and 2000 of one group with radius 1500: the turn of
  the first excludes the second, which lies 1000 away.
\<close>

theorem exclusion_inside_exact_buffer_witness:
  "turn disc ''label'' 1500
     [node 0 (0, 0) ''A'', node 1 (1000, 0) ''A'', node 2 (2000, 0) ''A'']
     [node 0 (0, 0) ''A'', node 1 (1000, 0) ''A'', node 2 (2000, 0) ''A''] 0 =
     Inr [node 0 (0, 0) ''A'', exclude (node 1 (1000, 0) ''A''), node 2 (2000, 0) ''A'']
   \<and> disc_within (1000, 0) (disc_buffer (0, 0) 1500)
   \<and> distance (0, 0) (1000, 0) \<le> 1500"
proof -
  let ?recs = "[node 0 (0, 0) ''A'', node 1 (1000, 0) ''A'', node 2 (2000, 0) ''A'']"
  let ?recs' = "[node 0 (0, 0) ''A'', exclude (node 1 (1000, 0) ''A''), node 2 (2000, 0) ''A'']"
  have t: "turn disc ''label'' 1500 ?recs ?recs 0 = Inr ?recs'"
    by (simp add: run_simps)
  have sound: "\<forall>p q. is_within disc q (buffer disc p 1500) \<longrightarrow> distance p q \<le> 1500"
    using disc_within_distance by (simp add: disc_def)
  have "kept (?recs ! 1)" "\<not> kept (?recs' ! 1)" "geometry (?recs ! 1) = Some (1000, 0)"
    by (simp_all add: node_def node_props_def kept_def)
  from exclusion_inside_exact_buffer [OF t _ _ this _ sound]
  have "\<exists>p. geometry (?recs ! 0) = Some p \<and> is_within disc (1000, 0) (buffer disc p 1500)
            \<and> distance p (1000, 0) \<le> 1500"
    by simp
  then have "disc_within (1000, 0) (disc_buffer (0, 0) 1500) \<and> distance (0, 0) (1000, 0) \<le> 1500"
    by (simp add: node_def disc_def)
  with t show ?thesis by simp
qed



section \<open>The written output\<close>

lemma filter_update_flag:
  "k = ''INCLUDE'' \<or> k = ''PROCESSED'' \<Longrightarrow>
     filter (\<lambda>kv. fst kv \<noteq> ''INCLUDE'' \<and> fst kv \<noteq> ''PROCESSED'') (AList.update k v al) =
     filter (\<lambda>kv. fst kv \<noteq> ''INCLUDE'' \<and> fst kv \<noteq> ''PROCESSED'') al"
  by (induction al) auto

lemma payload_exclude [simp]: "payload (exclude r) = payload r"
  by (simp add: payload_def exclude_def filter_update_flag)

lemma payload_reaffirm [simp]: "payload (reaffirm r) = payload r"
  by (simp add: payload_def reaffirm_def filter_update_flag)

lemma turn_payload:
  assumes "turn G gf radius file recs x = Inr recs'" and "x < length recs"
  shows "map payload recs' = map payload recs"
proof (rule nth_equalityI)
  show "length (map payload recs') = length (map payload recs)"
    using turn_length [OF assms(1)] by simp
next
  fix k assume "k < length (map payload recs')"
  then have k: "k < length recs" "k < length recs'" using turn_length [OF assms(1)] by simp_all
  have "payload (recs' ! k) = payload (recs ! k)"
  proof (cases "k = x")
    case True
    with turn_self [OF assms] show ?thesis by (simp split: if_splits)
  next
    case False
    with turn_other [OF assms(1) k(1)] show ?thesis by auto
  qed
  with k show "map payload recs' ! k = map payload recs ! k" by simp
qed

lemma pass_payload:
  assumes "foreach (turn G gf radius file) recs xs = Inr final" and "\<forall>x\<in>set xs. x < length recs"
  shows "length final = length recs \<and> map payload final = map payload recs"
proof (rule foreach_invariant [OF assms(1),
      where I = "\<lambda>cur. length cur = length recs \<and> map payload cur = map payload recs"])
  show "length recs = length recs \<and> map payload recs = map payload recs" by simp
next
  fix s a t
  assume I: "length s = length recs \<and> map payload s = map payload recs" and a: "a \<in> set xs"
    and t: "turn G gf radius file s a = Inr t"
  from I a assms(2) have "a < length s" by simp
  from turn_payload [OF t this] turn_length [OF t] I
  show "length t = length recs \<and> map payload t = map payload recs" by simp
qed

lemma write_kept_filter:
  "write_kept rs acc = Inr out \<Longrightarrow> out = acc @ filter kept rs"
proof (induction rs arbitrary: acc)
  case Nil
  then show ?case by simp
next
  case (Cons r rs)
  show ?case
  proof (cases "map_of (properties r) ''INCLUDE''")
    case None
    with Cons.prems show ?thesis by (simp add: getitem_def)
  next
    case (Some v)
    with Cons.prems have "write_kept rs (if v = PStr ''Y'' then acc @ [r] else acc) = Inr out"
      by (simp add: getitem_def)
    from Cons.IH [OF this] Some show ?thesis by (simp add: kept_def)
  qed
qed

text \<open>
  Claim C9. When \<open>thin_nodes\<close> returns, what it has written is the sequence of the
  records of the store whose \<open>INCLUDE\<close> is \<open>'Y'\<close> after the pass, in store order, none
  of them moved, repeated or left out; and the store after the pass has the records of
  the input, position by position, with the same id, geometry and attributes other than
  the two flags.
\<close>

theorem thinned_output:
  assumes "thin_nodes G input_file group_field radius = Inr out"
  shows "\<exists>recs. thin_pass G input_file group_field radius = Inr recs
           \<and> out = filter kept recs
           \<and> length recs = length input_file
           \<and> map payload recs = map payload input_file"
proof -
  from assms obtain recs where p: "thin_pass G input_file group_field radius = Inr recs"
    and w: "write_kept recs [] = Inr out"
    by (auto simp: thin_nodes_def ebind_def split: sum.splits)
  from p have "length recs = length input_file \<and> map payload recs = map payload input_file"
    unfolding thin_pass_def by (rule pass_payload) simp
  with p write_kept_filter [OF w] show ?thesis by simp
qed

text \<open>
  C9 on the three points at 0, 1000 and 2000 of one group with radius 1500: the first
  and the third are written, in that order.
\<close>

theorem thinned_output_witness:
  "thin_nodes disc [node 0 (0, 0) ''A'', node 1 (1000, 0) ''A'', node 2 (2000, 0) ''A''] ''label'' 1500 =
     Inr [node 0 (0, 0) ''A'', node 2 (2000, 0) ''A'']
   \<and> (\<exists>recs. thin_pass disc [node 0 (0, 0) ''A'', node 1 (1000, 0) ''A'', node 2 (2000, 0) ''A'']
                ''label'' 1500 = Inr recs
           \<and> [node 0 (0, 0) ''A'', node 2 (2000, 0) ''A''] = filter kept recs
           \<and> length recs =
               length [node 0 (0, 0) ''A'', node 1 (1000, 0) ''A'', node 2 (2000, 0) ''A'']
           \<and> map payload recs =
               map payload [node 0 (0, 0) ''A'', node 1 (1000, 0) ''A'', node 2 (2000, 0) ''A''])"
proof -
  let ?recs = "[node 0 (0, 0) ''A'', node 1 (1000, 0) ''A'', node 2 (2000, 0) ''A'']"
  have t: "thin_nodes disc ?recs ''label'' 1500 = Inr [node 0 (0, 0) ''A'', node 2 (2000, 0) ''A'']"
    by (simp add: run_simps upt_rec)
  from thinned_output [OF t] t show ?thesis by blast
qed

section \<open>The life of a record during a pass\<close>

lemma open_or_excluded_exclude [simp]: "open_or_excluded (exclude r)"
  by (simp add: open_or_excluded_def flags_def)



lemma not_kept_not_probing:
  "open_or_excluded r \<Longrightarrow> \<not> kept r \<Longrightarrow> \<not> probing r"
  by (auto simp: open_or_excluded_def probing_def kept_def flags_def)

lemma flags_exclude [simp]: "flags (exclude r) = (Some (PStr ''N''), Some (PStr ''Y''))"
  by (simp add: flags_def)








section \<open>A second pass over the written output\<close>

lemma scan_not_kept:
  assumes "foreach (examine G gf gb x) recs sids = Inr recs'" and "j < length recs"
    and "\<not> kept (recs ! j)"
  shows "\<not> kept (recs' ! j)"
  using scan_scanned [OF assms(1)] assms(2,3) by (auto simp: scanned_def)

lemma examine_same_group:
  assumes "examine G gf gb x recs j = Inr t" and "j < length recs"
    and "geometry (recs ! j) = Some p" and "is_within G p gb"
    and "fid (recs ! x) \<noteq> fid (recs ! j)" and "fid (recs ! j) = j"
    and "map_of (properties (recs ! x)) ''PROCESSED'' = Some (PStr ''N'')"
    and "kept (recs ! j)"
  shows "distinct_groups gf (recs ! x) (recs ! j) \<or> \<not> kept (t ! j)"
  using assms
  by (auto simp: examine_def ebind_def getitem_def kept_def distinct_groups_def
      split: option.splits if_splits)

lemma scan_survivor:
  assumes "foreach (examine G gf gb x) recs sids = Inr recs'"
    and "j \<in> set sids" and "j < length recs" and "kept (recs' ! j)"
    and "geometry (recs ! j) = Some p" and "is_within G p gb"
    and "fid (recs ! x) \<noteq> fid (recs ! j)" and "fid (recs ! j) = j"
    and "map_of (properties (recs ! x)) ''PROCESSED'' = Some (PStr ''N'')"
  shows "distinct_groups gf (recs ! x) (recs ! j)"
  using assms
proof (induction sids arbitrary: recs)
  case Nil
  then show ?case by simp
next
  case (Cons a sids)
  from Cons.prems(1) obtain t where t: "examine G gf gb x recs a = Inr t"
    and rest: "foreach (examine G gf gb x) t sids = Inr recs'"
    by (auto split: sum.splits)
  from examine_cases [OF t] have len: "length t = length recs" by auto
  from examine_cases [OF t] have tx: "t ! x = recs ! x"
    by (auto dest: eligible_neq)
  have kt: "kept (t ! j)"
    using scan_not_kept [OF rest, of j] Cons.prems(3,4) len by auto
  from examine_cases [OF t] Cons.prems(3) have "t ! j = recs ! j \<or> t ! j = exclude (recs ! j)"
    by (cases "a = j") auto
  with kt have tj: "t ! j = recs ! j" by auto
  show ?case
  proof (cases "a = j")
    case True
    from examine_same_group [OF t [unfolded True] Cons.prems(3,5,6,7,8,9)] kt tj
    show ?thesis by simp
  next
    case False
    with Cons.prems(2) have "j \<in> set sids" by simp
    from Cons.IH [OF rest this, unfolded tx tj len] Cons.prems kt tj
    show ?thesis by simp
  qed
qed

lemma wf_ids_nth: "wf_ids recs \<Longrightarrow> k < length recs \<Longrightarrow> fid (recs ! k) = k"
  unfolding wf_ids_def by (metis add_0 length_map nth_map nth_upt)


lemma bool_flags_exclude [simp]: "bool_flags (exclude r)"
  by (simp add: bool_flags_def)

lemma not_probing_exclude [simp]: "\<not> probing (exclude r)"
  by (simp add: probing_def)

lemma probing_bool:
  "bool_flags r \<Longrightarrow> probing r \<Longrightarrow> flags r = (Some (PStr ''Y''), Some (PStr ''N''))"
  by (auto simp: bool_flags_def probing_def flags_def)

lemma probing_kept: "bool_flags r \<Longrightarrow> probing r \<Longrightarrow> kept r"
  by (auto simp: bool_flags_def probing_def kept_def)


text \<open>One turn on a store whose flags are \<open>'Y'\<close> or \<open>'N'\<close>: a record stays or is excluded.\<close>

lemma turn_bool_step:
  assumes "turn G gf radius file recs x = Inr recs'" and "x < length recs" and "k < length recs"
    and "bool_flags (recs ! x)"
  shows "recs' ! k = recs ! k \<or> (kept (recs ! k) \<and> recs' ! k = exclude (recs ! k))"
proof (cases "k = x")
  case True
  show ?thesis
  proof (cases "probing (recs ! x)")
    case False
    with turn_self [OF assms(1,2)] True show ?thesis by simp
  next
    case p: True
    with turn_self [OF assms(1,2)] True probing_kept [OF assms(4) p]
      reaffirm_open [OF probing_bool [OF assms(4) p]]
    show ?thesis by (simp split: if_splits)
  qed
next
  case False
  from turn_other [OF assms(1,3) False] show ?thesis
    by (auto simp: eligible_def)
qed

lemma pass_inv_facts:
  assumes "pass_inv G gf radius recs0 done cur" and "wf_ids recs0"
    and "\<forall>r\<in>set recs0. bool_flags r" and "k < length recs0"
  shows "fid (cur ! k) = k" and "geometry (cur ! k) = geometry (recs0 ! k)"
    and "bool_flags (cur ! k)" and "kept (cur ! k) \<Longrightarrow> cur ! k = recs0 ! k"
proof -
  from assms(1,4) have c: "cur ! k = recs0 ! k \<or> cur ! k = exclude (recs0 ! k)"
    by (simp add: pass_inv_def)
  from assms(3,4) have b: "bool_flags (recs0 ! k)" by simp
  from c wf_ids_nth [OF assms(2,4)] show "fid (cur ! k) = k" by auto
  from c show "geometry (cur ! k) = geometry (recs0 ! k)" by auto
  from c b show "bool_flags (cur ! k)" by auto
  from c show "kept (cur ! k) \<Longrightarrow> cur ! k = recs0 ! k" by auto
qed

lemma pass_inv_step:
  assumes inv: "pass_inv G gf radius recs0 done cur" and wf: "wf_ids recs0"
    and bf: "\<forall>r\<in>set recs0. bool_flags r" and x: "x < length recs0"
    and t: "turn G gf radius recs0 cur x = Inr t"
  shows "pass_inv G gf radius recs0 (done @ [x]) t"
proof -
  from inv have len: "length cur = length recs0" by (simp add: pass_inv_def)
  have lt: "length t = length recs0" using turn_length [OF t] len by simp
  have xc: "x < length cur" using x len by simp
  have bx: "bool_flags (cur ! x)" by (rule pass_inv_facts(3) [OF inv wf bf x])
  have step: "t ! k = cur ! k \<or> (kept (cur ! k) \<and> t ! k = exclude (cur ! k))"
    if "k < length recs0" for k
    using turn_bool_step [OF t xc _ bx, of k] that len by simp
  have same: "t ! k = cur ! k" if "k < length recs0" "probing (t ! k) \<or> kept (t ! k)" for k
    using step [OF that(1)] that(2) by auto
  have E: "t ! k = recs0 ! k \<or> t ! k = exclude (recs0 ! k)" if "k < length recs0" for k
  proof -
    from inv that have "cur ! k = recs0 ! k \<or> cur ! k = exclude (recs0 ! k)"
      by (simp add: pass_inv_def)
    with step [OF that] show ?thesis by auto
  qed
  have S: "geometry (t ! a) \<noteq> None
      \<and> (\<forall>j<length recs0. j \<noteq> a \<and> kept (t ! j) \<and> comparable G radius (t ! a) (t ! j)
            \<longrightarrow> distinct_groups gf (t ! a) (t ! j))"
    if a: "a \<in> set (done @ [x])" and pa: "probing (t ! a)" for a
  proof (cases "a = x")
    case True
    from same [OF x] pa True have tx: "t ! x = cur ! x" by simp
    with pa True have px: "probing (cur ! x)" by simp
    have "geometry (cur ! x) \<noteq> None"
    proof
      assume "geometry (cur ! x) = None"
      with turn_self [OF t xc] px have "t ! x = exclude (cur ! x)" by simp
      with pa True show False by simp
    qed
    then obtain g where g: "geometry (cur ! x) = Some g" by auto
    from turn_probe_Inr [OF t px g] obtain c where
      c: "foreach (examine G gf (buffer G g radius) x) cur
           (records_within G recs0 (buffer G g (radius * 1.1))) = Inr c"
      and tc: "t = c[x := reaffirm (c ! x)]" by blast
    have proc: "map_of (properties (cur ! x)) ''PROCESSED'' = Some (PStr ''N'')"
      using probing_bool [OF bx px] by (simp add: flags_def)
    have "distinct_groups gf (t ! x) (t ! j)"
      if j: "j < length recs0" "j \<noteq> x" "kept (t ! j)" "comparable G radius (t ! x) (t ! j)" for j
    proof -
      from same [OF j(1)] j(3) have tj: "t ! j = cur ! j" by simp
      from tc j(2) have cj: "c ! j = t ! j" by simp
      from j(4) tx tj g obtain pj where pj: "geometry (cur ! j) = Some pj"
        and ib: "in_bounds G pj (buffer G g (radius * 1.1))"
        and iw: "is_within G pj (buffer G g radius)"
        by (auto simp: comparable_def split: option.splits)
      have g0: "geometry (recs0 ! j) = Some pj"
        using pass_inv_facts(2) [OF inv wf bf j(1)] pj by simp
      have "recs0 ! j \<in> set recs0" using j(1) by simp
      with g0 ib have "fid (recs0 ! j) \<in> set (records_within G recs0 (buffer G g (radius * 1.1)))"
        by (auto simp: records_within_def intro!: image_eqI [where x = "recs0 ! j"])
      then have mem: "j \<in> set (records_within G recs0 (buffer G g (radius * 1.1)))"
        using wf_ids_nth [OF wf j(1)] by simp
      have fj: "fid (cur ! j) = j" by (rule pass_inv_facts(1) [OF inv wf bf j(1)])
      have fx: "fid (cur ! x) = x" by (rule pass_inv_facts(1) [OF inv wf bf x])
      from fj fx j(2) have ne: "fid (cur ! x) \<noteq> fid (cur ! j)" by simp
      have jc: "j < length cur" using j(1) len by simp
      have kc: "kept (c ! j)" using cj j(3) by simp
      from scan_survivor [OF c mem jc kc pj iw ne fj proc] tx tj
      show ?thesis by simp
    qed
    with tx g True show ?thesis by simp
  next
    case False
    with a have ad: "a \<in> set done" by simp
    with inv have al: "a < length recs0" by (simp add: pass_inv_def)
    from same [OF al] pa have ta: "t ! a = cur ! a" by simp
    with pa have pca: "probing (cur ! a)" by simp
    from inv ad pca have old: "geometry (cur ! a) \<noteq> None
        \<and> (\<forall>j<length recs0. j \<noteq> a \<and> kept (cur ! j) \<and> comparable G radius (cur ! a) (cur ! j)
          \<longrightarrow> distinct_groups gf (cur ! a) (cur ! j))"
      by (simp add: pass_inv_def)
    have "distinct_groups gf (t ! a) (t ! j)"
      if j: "j < length recs0" "j \<noteq> a" "kept (t ! j)" "comparable G radius (t ! a) (t ! j)" for j
    proof -
      from same [OF j(1)] j(3) have tj: "t ! j = cur ! j" by simp
      with old j ta show ?thesis by simp
    qed
    with old ta show ?thesis by simp
  qed
  have D: "\<forall>a\<in>set (done @ [x]). a < length recs0"
    using inv x by (simp add: pass_inv_def)
  from lt D E S show ?thesis unfolding pass_inv_def by blast
qed


lemma read_back_length [simp]: "length (read_back out) = length out"
  by (simp add: read_back_def)










section \<open>The first index wins on well-formed input\<close>

lemma pass_inv_prefix:
  assumes "foreach (turn G gf radius recs0) recs0 xs = Inr cur" and wf: "wf_ids recs0"
    and bf: "\<forall>r\<in>set recs0. bool_flags r" and xs: "\<forall>x\<in>set xs. x < length recs0"
  shows "pass_inv G gf radius recs0 xs cur"
proof -
  have "pass_inv G gf radius recs0 ([] @ xs) cur"
  proof (rule foreach_prefix_invariant [OF assms(1),
        where I = "pass_inv G gf radius recs0" and pre = "[]"])
    show "pass_inv G gf radius recs0 [] recs0" by (simp add: pass_inv_def)
  next
    fix "done" a s t
    assume "pass_inv G gf radius recs0 ([] @ done) s" "a \<in> set xs"
      "turn G gf radius recs0 s a = Inr t"
    then show "pass_inv G gf radius recs0 ([] @ done @ [a]) t"
      using pass_inv_step [OF _ wf bf, of G gf radius "done" s a t] xs by simp
  qed
  then show ?thesis by simp
qed

text \<open>
  With ids that are the positions, flags that hold \<open>'Y'\<close> or \<open>'N'\<close>, and an exact buffer
  that is symmetric and covered by the coarse search, the first index wins: a record
  that has completed its own turn and is still open is not excluded in the turn of a
  later record.
\<close>

lemma first_index_wins:
  assumes wf: "wf_ids recs0" and bf: "\<forall>r\<in>set recs0. bool_flags r"
    and sym: "\<forall>p q. is_within G q (buffer G p radius) \<longrightarrow> is_within G p (buffer G q radius)"
    and cover: "\<forall>p q. is_within G q (buffer G p radius) \<longrightarrow> in_bounds G q (buffer G p (radius * 1.1))"
    and before: "foreach (turn G gf radius recs0) recs0 [0..<j] = Inr cur"
    and j: "j < length recs0" and i: "i < j" and pi: "probing (cur ! i)"
    and t: "turn G gf radius recs0 cur j = Inr t"
  shows "t ! i = cur ! i"
proof (rule ccontr)
  assume ne: "t ! i \<noteq> cur ! i"
  from j have "\<forall>x\<in>set [0..<j]. x < length recs0" by simp
  from pass_inv_prefix [OF before wf bf this]
  have inv: "pass_inv G gf radius recs0 [0..<j] cur" .
  then have len: "length cur = length recs0" by (simp add: pass_inv_def)
  from i j len have il: "i < length cur" "i \<noteq> j" by simp_all
  from turn_other [OF t il] ne obtain g where pj: "probing (cur ! j)"
    and g: "geometry (cur ! j) = Some g"
    and e: "eligible G gf (buffer G g radius) cur j i"
    by auto
  from e obtain p where p: "geometry (cur ! i) = Some p" and w: "is_within G p (buffer G g radius)"
    and same: "map_of (properties (cur ! j)) gf = map_of (properties (cur ! i)) gf"
    by (auto simp: eligible_def split: option.splits)
  from sym w have w': "is_within G g (buffer G p radius)" by blast
  with cover have "in_bounds G g (buffer G p (radius * 1.1))" by blast
  with w' p g have c: "comparable G radius (cur ! i) (cur ! j)" by (simp add: comparable_def)
  have "kept (cur ! j)"
    using probing_kept [OF pass_inv_facts(3) [OF inv wf bf j] pj] .
  with inv i j pi c have "distinct_groups gf (cur ! i) (cur ! j)"
    by (simp add: pass_inv_def)
  with same show False by (simp add: distinct_groups_def)
qed

end
